theory Spec2Isabelle
  imports Complex_Main "HOL-Library.Log_Nat"
begin

section \<open>Data model\<close>

text \<open>
  Digests and items are JavaScript strings, and \<open>left + right\<close> on two strings is
  their concatenation; both are \<^typ>\<open>string\<close> here and \<open>+\<close> is \<open>@\<close>.

  \<open>hashData\<close> wraps SHA-256 of Node's \<open>crypto\<close> module, which is not part of the
  repository: every function below takes the digest function as its first argument
  \<open>hashData\<close>, so whatever is proved holds for SHA-256 and for any other choice.
\<close>

type_synonym hasher = "string \<Rightarrow> string"

text \<open>One entry of a proof, the object literal \<open>{hash: ..., position: ...}\<close>.\<close>

record proof_step =
  hash :: string
  position :: string

text \<open>The object \<open>{tree: ..., root: ...}\<close> returned by \<open>buildMerkleTree\<close>.\<close>

record merkle_tree =
  tree :: "string list"
  root :: string

section \<open>The tree builder\<close>

text \<open>
  The \<open>for\<close> loop of \<open>buildMerkleTree\<close>: \<open>i\<close> runs over the even indices and one
  parent digest is pushed onto \<open>nextLevel\<close> per round.
\<close>

function buildLevel :: "hasher \<Rightarrow> string list \<Rightarrow> nat \<Rightarrow> string list \<Rightarrow> string list" where
  "buildLevel hashData hashedEmails i nextLevel =
     (if i < length hashedEmails then
        (let left = hashedEmails ! i;
             right = (if i + 1 < length hashedEmails then hashedEmails ! (i + 1) else left)
         in buildLevel hashData hashedEmails (i + 2) (nextLevel @ [hashData (left @ right)]))
      else nextLevel)"
  by pat_completeness auto
termination
  by (relation "measure (\<lambda>(hashData, hashedEmails, i, nextLevel). length hashedEmails - i)") auto

declare buildLevel.simps [simp del]

text \<open>
  \<open>buildMerkleTree\<close> calls itself on the next level until a level of length 1 is
  reached. Nothing in the source bounds the recursion, so the model is a partial
  function: \<open>None\<close> stands for a call that never returns.
\<close>

partial_function (option) buildMerkleTree :: "hasher \<Rightarrow> string list \<Rightarrow> merkle_tree option" where
  "buildMerkleTree hashData hashedEmails =
     (if length hashedEmails = 1
      then Some \<lparr>tree = hashedEmails, root = hashedEmails ! 0\<rparr>
      else buildMerkleTree hashData (buildLevel hashData hashedEmails 0 []))"

text \<open>
  Structural form of the pairing of one level, used to reason about the two loops
  that compute it, which are shown equal to it.
\<close>

fun pairUp :: "hasher \<Rightarrow> string list \<Rightarrow> string list" where
  "pairUp H [] = []"
| "pairUp H [x] = [H (x @ x)]"
| "pairUp H (x # y # xs) = H (x @ y) # pairUp H xs"

section \<open>The proof generator\<close>

text \<open>
  \<open>Array.prototype.indexOf\<close>: the first index holding a value strictly equal to the
  one searched for, or \<open>-1\<close>.
\<close>

fun indexOfFrom :: "string list \<Rightarrow> string \<Rightarrow> int \<Rightarrow> int" where
  "indexOfFrom [] x k = -1"
| "indexOfFrom (y # ys) x k = (if y = x then k else indexOfFrom ys x (k + 1))"

definition indexOf :: "string list \<Rightarrow> string \<Rightarrow> int" where
  "indexOf xs x = indexOfFrom xs x 0"

text \<open>
  The \<open>reduce\<close> call that prepares the next level: the callback sees every index
  \<open>i\<close> of \<open>src\<close> in order and pushes a parent digest at the even ones.
\<close>

definition reduceLevel :: "hasher \<Rightarrow> string list \<Rightarrow> string list" where
  "reduceLevel hashData src =
     foldl (\<lambda>acc i.
              if i mod 2 = 0 then
                (let left = src ! i;
                     right = (if i + 1 < length src then src ! (i + 1) else left)
                 in acc @ [hashData (left @ right)])
              else acc)
           [] [0..<length src]"

text \<open>
  One round of the \<open>while\<close> loop, for the current \<open>index\<close> and level: the
  final value of \<open>pairIndex\<close>, and the proof step pushed with it.
\<close>

definition pairIndexOf :: "nat \<Rightarrow> string list \<Rightarrow> nat" where
  "pairIndexOf index hashedEmails =
     (let pairIndex = (if index mod 2 = 0 then index + 1 else index - 1)
      in if pairIndex \<ge> length hashedEmails then index else pairIndex)"

definition siblingStep :: "nat \<Rightarrow> string list \<Rightarrow> proof_step" where
  "siblingStep index hashedEmails =
     (let pairIndex = pairIndexOf index hashedEmails
      in \<lparr>hash = hashedEmails ! pairIndex,
          position = (if pairIndex > index then ''right'' else ''left'')\<rparr>)"

lemma length_pairUp: "length (pairUp H xs) = (length xs + 1) div 2"
  by (induction H xs rule: pairUp.induct) auto

lemma reduce_from:
  "even i \<Longrightarrow> i \<le> length src \<Longrightarrow>
   foldl (\<lambda>acc i.
            if i mod 2 = 0 then
              (let left = src ! i;
                   right = (if i + 1 < length src then src ! (i + 1) else left)
               in acc @ [H (left @ right)])
            else acc)
         acc [i..<length src]
   = acc @ pairUp H (drop i src)"
proof (induction "length src - i" arbitrary: i acc rule: less_induct)
  case less
  consider "i = length src" | "Suc i = length src" | "Suc (Suc i) \<le> length src"
    using less.prems(2) by linarith
  then show ?case
  proof cases
    case 1
    then show ?thesis by simp
  next
    case 2
    then have d: "drop i src = [src ! i]"
      by (metis Cons_nth_drop_Suc drop_all lessI order_refl)
    have u: "[i..<length src] = [i]"
      using 2 by (metis upt_rec lessI upt_conv_Nil order_refl)
    have p: "i mod 2 = 0"
      using less.prems(1) by presburger
    show ?thesis
      using 2 by (simp add: d u p Let_def)
  next
    case 3
    then have d: "drop i src = src ! i # src ! Suc i # drop (Suc (Suc i)) src"
      by (metis Cons_nth_drop_Suc Suc_le_lessD Suc_lessD)
    have u: "[i..<length src] = i # Suc i # [Suc (Suc i)..<length src]"
      using 3 by (simp add: upt_rec)
    have e: "even (Suc (Suc i))"
      using less.prems(1) by simp
    have m: "length src - Suc (Suc i) < length src - i"
      using 3 by linarith
    have p: "i mod 2 = 0" "Suc i mod 2 = 1"
      using less.prems(1) by presburger+
    show ?thesis
      using less.hyps [OF m e 3] 3
      by (simp add: d u p Let_def)
  qed
qed

lemma reduceLevel_pairUp: "reduceLevel H src = pairUp H src"
  using reduce_from [of 0 src H "[]"] by (simp add: reduceLevel_def)

text \<open>
  The \<open>while\<close> loop of \<open>generateMerkleProof\<close>, with the three variables it
  updates: \<open>index\<close>, \<open>hashedEmails\<close> and \<open>proof\<close>.
\<close>

function proofLoop :: "hasher \<Rightarrow> nat \<Rightarrow> string list \<Rightarrow> proof_step list \<Rightarrow> proof_step list" where
  "proofLoop hashData index hashedEmails prf =
     (if length hashedEmails > 1 then
        proofLoop hashData (index div 2) (reduceLevel hashData hashedEmails)
                  (prf @ [siblingStep index hashedEmails])
      else prf)"
  by pat_completeness auto
termination
  by (relation "measure (\<lambda>(hashData, index, hashedEmails, prf). length hashedEmails)")
     (auto simp: reduceLevel_pairUp length_pairUp)

declare proofLoop.simps [simp del]

text \<open>\<open>generateMerkleProof\<close>; \<open>None\<close> is the \<open>null\<close> it returns for a missing target.\<close>

definition generateMerkleProof :: "hasher \<Rightarrow> string \<Rightarrow> string list \<Rightarrow> proof_step list option" where
  "generateMerkleProof hashData email hashedEmails =
     (let targetHash = hashData email;
          index = indexOf hashedEmails targetHash
      in if index = -1 then None
         else Some (proofLoop hashData (nat index) hashedEmails []))"

section \<open>The verifier\<close>

text \<open>The callback of \<open>proof.forEach\<close>: the new value of \<open>computedHash\<close>.\<close>

definition verifyStep :: "hasher \<Rightarrow> string \<Rightarrow> proof_step \<Rightarrow> string" where
  "verifyStep hashData computedHash s =
     (let pair = (if position s = ''left'' then hash s @ computedHash
                  else computedHash @ hash s)
      in hashData pair)"

text \<open>The whole \<open>forEach\<close>: \<open>computedHash\<close> after the last step, from its first value.\<close>

definition replayProof :: "hasher \<Rightarrow> string \<Rightarrow> proof_step list \<Rightarrow> string" where
  "replayProof hashData computedHash prf = foldl (verifyStep hashData) computedHash prf"

definition verifyEmail :: "hasher \<Rightarrow> string \<Rightarrow> proof_step list \<Rightarrow> string \<Rightarrow> bool" where
  "verifyEmail hashData email prf root' =
     (let computedHash = replayProof hashData (hashData email) prf
      in computedHash = root')"

text \<open>
  A stand-in digest function on which the definitions can be evaluated: it brackets
  its input, so distinct inputs have distinct digests.
\<close>

definition bracketHash :: hasher where
  "bracketHash d = ''<'' @ d @ ''>''"

section \<open>The two level loops compute the same pairing\<close>

lemma buildLevel_from:
  "i \<le> length xs \<Longrightarrow> buildLevel H xs i acc = acc @ pairUp H (drop i xs)"
proof (induction H xs i acc rule: buildLevel.induct)
  case (1 H xs i acc)
  show ?case
  proof (cases "i < length xs")
    case False
    with "1.prems" show ?thesis
      by (subst buildLevel.simps) simp
  next
    case True
    note lt = this
    show ?thesis
    proof (cases "i + 1 < length xs")
      case True
      then have d: "drop i xs = xs ! i # xs ! (i + 1) # drop (i + 2) xs"
        by (metis Cons_nth_drop_Suc Suc_eq_plus1 add_2_eq_Suc' lt)
      have "buildLevel H xs i acc
            = buildLevel H xs (i + 2) (acc @ [H (xs ! i @ xs ! (i + 1))])"
        using True lt by (simp add: buildLevel.simps [of H xs i acc] Let_def)
      also have "\<dots> = (acc @ [H (xs ! i @ xs ! (i + 1))]) @ pairUp H (drop (i + 2) xs)"
        using "1.IH" [OF lt refl refl] True by simp
      finally show ?thesis
        by (simp add: d)
    next
      case False
      with lt have last: "i + 1 = length xs"
        by linarith
      then have d: "drop i xs = [xs ! i]"
        by (metis Cons_nth_drop_Suc Suc_eq_plus1 drop_all lt order_refl)
      have "buildLevel H xs i acc = buildLevel H xs (i + 2) (acc @ [H (xs ! i @ xs ! i)])"
        using False lt by (simp add: buildLevel.simps [of H xs i acc] Let_def)
      also have "\<dots> = acc @ [H (xs ! i @ xs ! i)]"
        using last by (subst buildLevel.simps) simp
      finally show ?thesis
        by (simp add: d)
    qed
  qed
qed

lemma buildLevel_pairUp: "buildLevel H xs 0 [] = pairUp H xs"
  using buildLevel_from [of 0 xs H "[]"] by simp

lemma buildMerkleTree_single: "buildMerkleTree H [d] = Some \<lparr>tree = [d], root = d\<rparr>"
  by (subst buildMerkleTree.simps) simp

lemma buildMerkleTree_step:
  "length xs \<noteq> 1 \<Longrightarrow> buildMerkleTree H xs = buildMerkleTree H (pairUp H xs)"
  by (subst buildMerkleTree.simps) (simp add: buildLevel_pairUp)

text \<open>On a non-empty level the builder returns, and what it returns is a one-entry tree.\<close>

lemma buildMerkleTree_total:
  "xs \<noteq> [] \<Longrightarrow> \<exists>r. buildMerkleTree H xs = Some \<lparr>tree = [r], root = r\<rparr>"
proof (induction "length xs" arbitrary: xs rule: less_induct)
  case less
  show ?case
  proof (cases "length xs = 1")
    case True
    then obtain d where "xs = [d]"
      by (cases xs) auto
    then show ?thesis
      by (simp add: buildMerkleTree_single)
  next
    case False
    with less.prems have big: "1 < length xs"
      by (cases xs) auto
    then have "length (pairUp H xs) < length xs" and "pairUp H xs \<noteq> []"
      by (auto simp: length_pairUp simp flip: length_greater_0_conv)
    from less.hyps [OF this] show ?thesis
      by (simp add: buildMerkleTree_step [OF False])
  qed
qed

text \<open>The last parent of an odd-length level is the last entry joined with itself.\<close>

lemma last_pairUp_odd:
  "odd (length xs) \<Longrightarrow> last (pairUp H xs) = H (last xs @ last xs)"
proof (induction H xs rule: pairUp.induct)
  case (1 H)
  then show ?case by simp
next
  case (2 H x)
  then show ?case by simp
next
  case (3 H x y xs)
  then have odd: "odd (length xs)"
    by simp
  then have ne: "xs \<noteq> []"
    by auto
  then have "length (pairUp H xs) \<noteq> 0"
    by (cases xs) (simp_all add: length_pairUp)
  then have "pairUp H xs \<noteq> []"
    by simp
  with ne "3.IH" [OF odd] show ?case
    by simp
qed

section \<open>Replaying a generated proof\<close>

lemma pairUp_nth:
  "k < length (pairUp H xs) \<Longrightarrow>
   pairUp H xs ! k =
     H (xs ! (2 * k) @ (if 2 * k + 1 < length xs then xs ! (2 * k + 1) else xs ! (2 * k)))"
proof (induction H xs arbitrary: k rule: pairUp.induct)
  case (1 H)
  then show ?case by simp
next
  case (2 H x)
  then show ?case by simp
next
  case (3 H x y xs)
  then show ?case by (cases k) auto
qed

lemma verifyStep_sibling:
  assumes "index < length xs"
  shows "verifyStep H (xs ! index) (siblingStep index xs) = pairUp H xs ! (index div 2)"
proof (cases "even index")
  case True
  then obtain m where m: "index = 2 * m"
    by (elim evenE)
  have k: "m < length (pairUp H xs)"
    using assms by (simp add: length_pairUp m)
  show ?thesis
    using assms by (simp add: m pairUp_nth [OF k] verifyStep_def siblingStep_def pairIndexOf_def Let_def)
next
  case False
  then obtain m where m: "index = Suc (2 * m)"
    by (elim oddE) simp
  have k: "m < length (pairUp H xs)"
    using assms by (simp add: length_pairUp m)
  show ?thesis
    using assms by (simp add: m pairUp_nth [OF k] verifyStep_def siblingStep_def pairIndexOf_def Let_def)
qed

lemma proofLoop_step:
  "1 < length xs \<Longrightarrow>
   proofLoop H index xs acc = proofLoop H (index div 2) (pairUp H xs) (acc @ [siblingStep index xs])"
  by (subst proofLoop.simps) (simp add: reduceLevel_pairUp)

lemma proofLoop_stop: "length xs \<le> 1 \<Longrightarrow> proofLoop H index xs acc = acc"
  by (subst proofLoop.simps) simp

lemma proofLoop_acc: "proofLoop H index xs acc = acc @ proofLoop H index xs []"
proof (induction "length xs" arbitrary: index xs acc rule: less_induct)
  case less
  show ?case
  proof (cases "1 < length xs")
    case True
    then have smaller: "length (pairUp H xs) < length xs"
      by (simp add: length_pairUp)
    show ?thesis
      using less.hyps [OF smaller, of "index div 2" "acc @ [siblingStep index xs]"]
            less.hyps [OF smaller, of "index div 2" "[siblingStep index xs]"]
      by (simp add: proofLoop_step [OF True])
  next
    case False
    then show ?thesis
      by (simp add: proofLoop_stop)
  qed
qed

lemma replay_reaches_root:
  "index < length xs \<Longrightarrow> buildMerkleTree H xs = Some t \<Longrightarrow>
   replayProof H (xs ! index) (proofLoop H index xs []) = root t"
proof (induction "length xs" arbitrary: index xs rule: less_induct)
  case less
  show ?case
  proof (cases "1 < length xs")
    case True
    then have smaller: "length (pairUp H xs) < length xs"
      by (simp add: length_pairUp)
    have half: "index div 2 < length (pairUp H xs)"
      using less.prems(1) by (simp add: length_pairUp)
    have up: "buildMerkleTree H (pairUp H xs) = Some t"
      using less.prems(2) True by (simp add: buildMerkleTree_step)
    have "proofLoop H index xs []
          = siblingStep index xs # proofLoop H (index div 2) (pairUp H xs) []"
      using proofLoop_acc [of H "index div 2" "pairUp H xs" "[siblingStep index xs]"]
      by (simp add: proofLoop_step [OF True])
    then show ?thesis
      using less.hyps [OF smaller half up]
      by (simp add: replayProof_def verifyStep_sibling [OF less.prems(1)])
  next
    case False
    with less.prems(1) obtain d where xs: "xs = [d]"
      by (cases xs) auto
    then show ?thesis
      using less.prems by (auto simp: replayProof_def proofLoop_stop buildMerkleTree_single)
  qed
qed

section \<open>Locating the target\<close>

lemma indexOfFrom_absent: "x \<notin> set xs \<Longrightarrow> indexOfFrom xs x k = -1"
  by (induction xs arbitrary: k) auto

lemma indexOfFrom_first:
  "i < length xs \<Longrightarrow> xs ! i = x \<Longrightarrow> \<forall>j<i. xs ! j \<noteq> x \<Longrightarrow>
   indexOfFrom xs x k = k + int i"
proof (induction xs arbitrary: i k)
  case Nil
  then show ?case by simp
next
  case (Cons y ys)
  show ?case
  proof (cases i)
    case 0
    with Cons.prems show ?thesis by simp
  next
    case (Suc n)
    with Cons.prems have "y \<noteq> x" by auto
    moreover have "indexOfFrom ys x (k + 1) = (k + 1) + int n"
      using Cons.prems Suc by (intro Cons.IH) auto
    ultimately show ?thesis
      using Suc by simp
  qed
qed

lemma first_position:
  "x \<in> set xs \<Longrightarrow> \<exists>i<length xs. xs ! i = x \<and> (\<forall>j<i. xs ! j \<noteq> x)"
proof (induction xs)
  case Nil
  then show ?case by simp
next
  case (Cons y ys)
  show ?case
  proof (cases "y = x")
    case True
    then show ?thesis by (intro exI [of _ 0]) simp
  next
    case False
    with Cons obtain i where i: "i < length ys" "ys ! i = x" "\<forall>j<i. ys ! j \<noteq> x"
      by auto
    show ?thesis
      using i False by (intro exI [of _ "Suc i"]) (auto simp: less_Suc_eq_0_disj)
  qed
qed

section \<open>Number of rounds\<close>

lemma ceillog2_halve: "2 \<le> n \<Longrightarrow> ceillog2 n = Suc (ceillog2 ((n + 1) div 2))"
proof (rule ceillog2_eqI)
  assume n: "2 \<le> n"
  define m where "m = (n + 1) div 2"
  have m: "0 < m" "n \<le> 2 * m" "2 * m \<le> n + 1"
    using n by (simp_all add: m_def)
  have "2 * m \<le> 2 * 2 ^ ceillog2 m"
    using le_two_power_ceillog2 [of m] by simp
  with m(2) show "n \<le> 2 ^ Suc (ceillog2 ((n + 1) div 2))"
    by (simp add: m_def)
  have gt: "2 ^ ceillog2 m < 2 * m"
    using two_power_ceillog2_gt [OF m(1)] .
  have "2 ^ ceillog2 m < n"
  proof (cases "ceillog2 m")
    case 0
    then show ?thesis using n by simp
  next
    case (Suc k)
    with gt have "(2::nat) ^ k < m" by simp
    then have "2 * 2 ^ k + 2 \<le> 2 * m" by simp
    with m(3) show ?thesis by (simp add: Suc)
  qed
  then show "2 ^ Suc (ceillog2 ((n + 1) div 2)) < 2 * n"
    by (simp add: m_def)
qed

lemma length_proofLoop:
  "length (proofLoop H index xs acc) = length acc + ceillog2 (length xs)"
proof (induction "length xs" arbitrary: index xs acc rule: less_induct)
  case less
  show ?case
  proof (cases "1 < length xs")
    case True
    then have smaller: "length (pairUp H xs) < length xs"
      by (simp add: length_pairUp)
    show ?thesis
      using less.hyps [OF smaller, of "index div 2" "acc @ [siblingStep index xs]"] True
      by (simp add: proofLoop_step [OF True] length_pairUp ceillog2_halve [of "length xs"])
  next
    case False
    then show ?thesis
      by (simp add: proofLoop_stop)
  qed
qed

section \<open>Generating a proof for a member\<close>

text \<open>
  The loop of \<open>generateMerkleProof\<close> starts at an index that \<open>indexOf\<close> found, so
  inside the level; each round keeps it inside, and the sibling it reads is inside too.
\<close>

lemma pairIndexOf_in_range: "index < length xs \<Longrightarrow> pairIndexOf index xs < length xs"
  by (auto simp: pairIndexOf_def Let_def)

lemma next_index_in_range: "index < length xs \<Longrightarrow> index div 2 < length (reduceLevel H xs)"
  by (simp add: reduceLevel_pairUp length_pairUp)

lemma in_set_indexOf:
  "x \<in> set xs \<Longrightarrow> 0 \<le> indexOf xs x \<and> nat (indexOf xs x) < length xs \<and> xs ! nat (indexOf xs x) = x"
proof -
  assume "x \<in> set xs"
  then obtain i where i: "i < length xs" "xs ! i = x" "\<forall>j<i. xs ! j \<noteq> x"
    using first_position [of x xs] by auto
  have "indexOf xs x = int i"
    using indexOfFrom_first [OF i, of 0] by (simp add: indexOf_def)
  with i(1,2) show ?thesis by simp
qed

lemma generate_member:
  "H e \<in> set hs \<Longrightarrow>
   generateMerkleProof H e hs = Some (proofLoop H (nat (indexOf hs (H e))) hs [])"
  using in_set_indexOf [of "H e" hs] by (simp add: generateMerkleProof_def Let_def)

lemma round_trip_digests:
  assumes "H e \<in> set hs"
  shows "\<exists>p t. generateMerkleProof H e hs = Some p \<and> buildMerkleTree H hs = Some t
               \<and> verifyEmail H e p (root t)"
proof -
  obtain i where i: "i = nat (indexOf hs (H e))" "i < length hs" "hs ! i = H e"
    using in_set_indexOf [OF assms] by simp
  from assms have "hs \<noteq> []" by auto
  then obtain t where t: "buildMerkleTree H hs = Some t"
    using buildMerkleTree_total [of hs H] by auto
  have "replayProof H (hs ! i) (proofLoop H i hs []) = root t"
    by (rule replay_reaches_root [OF i(2) t])
  then have "replayProof H (H e) (proofLoop H i hs []) = root t"
    by (simp only: i(3))
  then show ?thesis
    using t assms by (simp add: generate_member [of H e hs] verifyEmail_def flip: i(1))
qed

section \<open>The claims\<close>

text \<open>
  The specification states its contracts over digests: \<open>generateProof\<close> and \<open>verify\<close>
  receive the digest of the item. \<open>generateMerkleProof\<close> and \<open>verifyEmail\<close> receive
  the item \<open>email\<close> and compute that digest as their first statement, so
  \<open>generateProof(hash(e), hs)\<close> is \<open>generateMerkleProof hashData e hs\<close>, and
  \<open>verify(hash(e), p, r)\<close> is \<open>verifyEmail hashData e p r\<close>, that is
  \<open>replayProof hashData (hashData e) p = r\<close>.
\<close>

text \<open>
  C1 (round trip). For a non-empty list \<open>L\<close> of distinct items and an item \<open>e\<close> of it,
  the generator returns a proof for \<open>e\<close> over the digests of \<open>L\<close>, the builder returns
  a tree for them, and the verifier accepts that proof against the tree's root.
\<close>

theorem round_trip:
  assumes "L \<noteq> []" and "distinct L" and "e \<in> set L"
  shows "\<exists>p t. generateMerkleProof H e (map H L) = Some p
               \<and> buildMerkleTree H (map H L) = Some t
               \<and> verifyEmail H e p (root t)"
  using assms(3) by (intro round_trip_digests) simp

theorem round_trip_witness:
  "[''a'', ''b'', ''c''] \<noteq> [] \<and> distinct [''a'', ''b'', ''c''] \<and> ''c'' \<in> set [''a'', ''b'', ''c''] \<and>
   (\<exists>p t. generateMerkleProof bracketHash ''c'' (map bracketHash [''a'', ''b'', ''c'']) = Some p
          \<and> buildMerkleTree bracketHash (map bracketHash [''a'', ''b'', ''c'']) = Some t
          \<and> verifyEmail bracketHash ''c'' p (root t))"
  using round_trip [of "[''a'', ''b'', ''c'']" "''c''" bracketHash] by simp

text \<open>
  C2 (empty input). On the empty list the test \<open>length = 1\<close> fails, the \<open>for\<close> loop
  pushes nothing, and \<open>buildMerkleTree\<close> calls itself on the empty list again: the call
  never returns, neither a root nor an error value.
\<close>

theorem empty_input_never_returns: "buildMerkleTree H [] = None"
proof (cases "buildMerkleTree H []")
  case None
  then show ?thesis .
next
  case (Some t)
  have "[] \<noteq> ([] :: string list)"
  proof (rule buildMerkleTree.raw_induct
           [where P = "\<lambda>_ xs _. xs \<noteq> []" and hashData = H and hashedEmails = "[]" and y = t])
    show "buildMerkleTree H [] = Some t"
      by (rule Some)
  next
    fix build :: "hasher \<Rightarrow> string list \<Rightarrow> merkle_tree option"
    fix hashData hashedEmails and result :: merkle_tree
    assume returns: "\<And>hashData hashedEmails result.
                       build hashData hashedEmails = Some result \<Longrightarrow> hashedEmails \<noteq> []"
      and body: "(if length hashedEmails = 1
                  then Some \<lparr>tree = hashedEmails, root = hashedEmails ! 0\<rparr>
                  else build hashData (buildLevel hashData hashedEmails 0 [])) = Some result"
    show "hashedEmails \<noteq> []"
    proof
      assume "hashedEmails = []"
      with body have "build hashData [] = Some result"
        by (simp add: buildLevel.simps [of hashData "[]"])
      from returns [OF this] show False
        by simp
    qed
  qed
  then show ?thesis
    by simp
qed

text \<open>
  C3 (odd-length duplication). For three leaves \<open>a\<close>, \<open>b\<close>, \<open>c\<close> the level the
  builder computes from them is \<open>[hash (a @ b), hash (c @ c)]\<close>, and the root is the
  digest of these two joined. For every level \<open>xs\<close> of odd length, the level the
  builder's loop computes has \<open>(length xs + 1) div 2\<close> entries, so the final entry is
  not dropped; its last entry is the digest of the final entry joined with itself, so
  that entry is neither carried up unhashed nor paired with another; every entry
  before it is the digest of two consecutive entries of \<open>xs\<close>; the generator's loop
  computes the same level; and for more than one entry the builder continues with
  exactly that level.
\<close>

theorem odd_length_duplication:
  "buildLevel H [a, b, c] 0 [] = [H (a @ b), H (c @ c)]
   \<and> buildMerkleTree H [a, b, c]
       = Some \<lparr>tree = [H (H (a @ b) @ H (c @ c))], root = H (H (a @ b) @ H (c @ c))\<rparr>
   \<and> (odd (length xs) \<longrightarrow>
        length (buildLevel H xs 0 []) = (length xs + 1) div 2
        \<and> last (buildLevel H xs 0 []) = H (last xs @ last xs)
        \<and> (\<forall>k. 2 * k + 1 < length xs \<longrightarrow>
               buildLevel H xs 0 [] ! k = H (xs ! (2 * k) @ xs ! (2 * k + 1)))
        \<and> reduceLevel H xs = buildLevel H xs 0 []
        \<and> (1 < length xs \<longrightarrow>
               buildMerkleTree H xs = buildMerkleTree H (buildLevel H xs 0 [])))"
proof -
  have l1: "buildLevel H [a, b, c] 0 [] = [H (a @ b), H (c @ c)]"
    by (simp add: buildLevel_pairUp)
  have "buildMerkleTree H [a, b, c] = buildMerkleTree H [H (a @ b), H (c @ c)]"
    by (simp add: buildMerkleTree_step)
  also have "\<dots> = buildMerkleTree H [H (H (a @ b) @ H (c @ c))]"
    by (simp add: buildMerkleTree_step)
  finally have three: "buildMerkleTree H [a, b, c]
       = Some \<lparr>tree = [H (H (a @ b) @ H (c @ c))], root = H (H (a @ b) @ H (c @ c))\<rparr>"
    by (simp add: buildMerkleTree_single)
  have pairs: "buildLevel H xs 0 [] ! k = H (xs ! (2 * k) @ xs ! (2 * k + 1))"
    if "2 * k + 1 < length xs" for k
  proof -
    from that have "k < length (pairUp H xs)"
      by (simp add: length_pairUp)
    from pairUp_nth [OF this] that show ?thesis
      by (simp add: buildLevel_pairUp)
  qed
  have step: "buildMerkleTree H xs = buildMerkleTree H (buildLevel H xs 0 [])"
    if "1 < length xs"
    using that buildMerkleTree_step [of xs H] by (simp add: buildLevel_pairUp)
  have general: "length (buildLevel H xs 0 []) = (length xs + 1) div 2"
    "reduceLevel H xs = buildLevel H xs 0 []"
    by (simp_all add: buildLevel_pairUp reduceLevel_pairUp length_pairUp)
  have tail: "last (buildLevel H xs 0 []) = H (last xs @ last xs)" if "odd (length xs)"
    using that by (simp add: buildLevel_pairUp last_pairUp_odd)
  show ?thesis
    using l1 three pairs step general tail by (intro conjI impI allI)
qed

theorem odd_length_duplication_witness:
  "odd (length [''<a>'', ''<b>'', ''<c>'', ''<d>'', ''<e>''])
   \<and> length (buildLevel bracketHash [''<a>'', ''<b>'', ''<c>'', ''<d>'', ''<e>''] 0 []) = 3
   \<and> last (buildLevel bracketHash [''<a>'', ''<b>'', ''<c>'', ''<d>'', ''<e>''] 0 []) = ''<<e><e>>''
   \<and> buildLevel bracketHash [''<a>'', ''<b>'', ''<c>'', ''<d>'', ''<e>''] 0 [] ! 1 = ''<<c><d>>''"
proof -
  have odd5: "odd (length [''<a>'', ''<b>'', ''<c>'', ''<d>'', ''<e>''])"
    by simp
  have second: "2 * 1 + 1 < length [''<a>'', ''<b>'', ''<c>'', ''<d>'', ''<e>'']"
    by simp
  note level = odd_length_duplication
    [of bracketHash "[]" "[]" "[]" "[''<a>'', ''<b>'', ''<c>'', ''<d>'', ''<e>'']",
     THEN conjunct2, THEN conjunct2, THEN mp, OF odd5]
  note size = level [THEN conjunct1]
    and tail = level [THEN conjunct2, THEN conjunct1]
    and pair = level [THEN conjunct2, THEN conjunct2, THEN conjunct1, THEN spec, of 1,
                      THEN mp, OF second]
  show ?thesis
    using odd5 size tail pair by (simp add: bracketHash_def)
qed

text \<open>
  C4 (single-leaf identity). The builder returns a single digest \<open>d\<close> as the root,
  unhashed; replaying the empty proof from \<open>d\<close> gives \<open>d\<close>, so the verifier accepts
  the empty proof for an item against the item's own digest.
\<close>

theorem single_leaf_identity:
  "buildMerkleTree H [d] = Some \<lparr>tree = [d], root = d\<rparr>
   \<and> replayProof H d [] = d
   \<and> verifyEmail H e [] (H e)"
  by (simp add: buildMerkleTree_single replayProof_def verifyEmail_def)




text \<open>
  C6 (non-membership). For a non-empty list of leaf digests that does not hold the
  target's digest, the generator returns \<open>null\<close>, not a proof.
\<close>

theorem non_membership:
  assumes "hs \<noteq> []" and "H e \<notin> set hs"
  shows "generateMerkleProof H e hs = None"
  using assms(2) by (simp add: generateMerkleProof_def indexOf_def indexOfFrom_absent)

theorem non_membership_witness:
  "[''<a>'', ''<b>''] \<noteq> [] \<and> bracketHash ''c'' \<notin> set [''<a>'', ''<b>'']
   \<and> generateMerkleProof bracketHash ''c'' [''<a>'', ''<b>''] = None"
  using non_membership [of "[''<a>'', ''<b>'']" bracketHash "''c''"]
  by (simp add: bracketHash_def)

text \<open>
  C7 (proof length). For \<open>n \<ge> 1\<close> leaf digests and a member of them, the generator
  returns a proof of exactly \<open>\<lceil>log\<^sub>2 n\<rceil>\<close> steps, and of no step when \<open>n = 1\<close>.
\<close>

theorem proof_length:
  assumes "hs \<noteq> []" and "H e \<in> set hs"
  shows "\<exists>p. generateMerkleProof H e hs = Some p
             \<and> int (length p) = \<lceil>log 2 (real (length hs))\<rceil>
             \<and> (length hs = 1 \<longrightarrow> length p = 0)"
proof -
  have "0 \<le> log 2 (real (length hs))"
    using assms(1) by (cases hs) simp_all
  then have pos: "0 \<le> \<lceil>log 2 (real (length hs))\<rceil>"
    by simp
  define p where "p = proofLoop H (nat (indexOf hs (H e))) hs []"
  have gen: "generateMerkleProof H e hs = Some p"
    using assms(2) by (simp add: generate_member [of H e hs] p_def)
  have len: "length p = ceillog2 (length hs)"
    by (simp add: p_def length_proofLoop)
  then have "int (length p) = \<lceil>log 2 (real (length hs))\<rceil>"
    using assms(1) pos by (simp add: ceillog2_def)
  moreover have "length hs = 1 \<longrightarrow> length p = 0"
    by (simp only: len) simp
  ultimately show ?thesis
    using gen by (intro exI [of _ p]) (simp only: simp_thms)
qed

theorem proof_length_witness:
  "[''<a>'', ''<b>'', ''<c>''] \<noteq> [] \<and> bracketHash ''c'' \<in> set [''<a>'', ''<b>'', ''<c>''] \<and>
   (\<exists>p. generateMerkleProof bracketHash ''c'' [''<a>'', ''<b>'', ''<c>''] = Some p
        \<and> int (length p) = \<lceil>log 2 (real (length [''<a>'', ''<b>'', ''<c>'']))\<rceil>)"
proof -
  have nonempty: "[''<a>'', ''<b>'', ''<c>''] \<noteq> []"
    and member: "bracketHash ''c'' \<in> set [''<a>'', ''<b>'', ''<c>'']"
    by (simp_all add: bracketHash_def)
  from nonempty member
    proof_length [of "[''<a>'', ''<b>'', ''<c>'']" bracketHash "''c''"]
  obtain p where "generateMerkleProof bracketHash ''c'' [''<a>'', ''<b>'', ''<c>''] = Some p"
    and "int (length p) = \<lceil>log 2 (real (length [''<a>'', ''<b>'', ''<c>'']))\<rceil>"
    by auto
  with nonempty member show ?thesis
    by (intro conjI exI [of _ p])
qed

text \<open>
  C8 (self-pair side). When the loop runs a round on a level of odd length with the
  target at its last index, the step it pushes holds the target's own digest with side
  \<open>left\<close>; replaying that step from the target's digest gives the digest of the
  target joined with itself, which is the parent that both level loops compute at the
  target's next index. (A level of length 1 ends the loop and records no step.)
\<close>

theorem self_pair_side:
  assumes "odd (length xs)" and "1 < length xs" and "index = length xs - 1"
  shows "siblingStep index xs = \<lparr>hash = xs ! index, position = ''left''\<rparr>
         \<and> proofLoop H index xs prf
             = proofLoop H (index div 2) (reduceLevel H xs)
                 (prf @ [\<lparr>hash = xs ! index, position = ''left''\<rparr>])
         \<and> verifyStep H (xs ! index) \<lparr>hash = xs ! index, position = ''left''\<rparr>
             = H (xs ! index @ xs ! index)
         \<and> buildLevel H xs 0 [] ! (index div 2) = H (xs ! index @ xs ! index)
         \<and> reduceLevel H xs ! (index div 2) = H (xs ! index @ xs ! index)"
proof -
  have even: "index mod 2 = 0"
    using assms by presburger
  have last: "Suc index = length xs"
    using assms(2,3) by simp
  have "pairIndexOf index xs = index"
    by (simp add: pairIndexOf_def even last)
  then have step: "siblingStep index xs = \<lparr>hash = xs ! index, position = ''left''\<rparr>"
    by (simp add: siblingStep_def)
  have loop: "proofLoop H index xs prf
              = proofLoop H (index div 2) (reduceLevel H xs) (prf @ [siblingStep index xs])"
    using assms(2) by (subst proofLoop.simps) simp
  have replay: "verifyStep H (xs ! index) \<lparr>hash = xs ! index, position = ''left''\<rparr>
                = H (xs ! index @ xs ! index)"
    by (simp add: verifyStep_def)
  have "index < length xs"
    using assms(2,3) by simp
  from verifyStep_sibling [OF this, of H]
  have parent: "pairUp H xs ! (index div 2) = H (xs ! index @ xs ! index)"
    by (simp add: step replay)
  show ?thesis
    using step loop replay parent by (simp add: buildLevel_pairUp reduceLevel_pairUp)
qed

theorem self_pair_side_witness:
  "odd (length [''<a>'', ''<b>'', ''<c>'']) \<and> 1 < length [''<a>'', ''<b>'', ''<c>'']
   \<and> (2::nat) = length [''<a>'', ''<b>'', ''<c>''] - 1
   \<and> siblingStep 2 [''<a>'', ''<b>'', ''<c>'']
       = \<lparr>hash = [''<a>'', ''<b>'', ''<c>''] ! 2, position = ''left''\<rparr>
   \<and> buildLevel bracketHash [''<a>'', ''<b>'', ''<c>''] 0 [] ! (2 div 2) = ''<<c><c>>''"
proof -
  have odd3: "odd (length [''<a>'', ''<b>'', ''<c>''])"
    and big: "1 < length [''<a>'', ''<b>'', ''<c>'']"
    and last: "(2::nat) = length [''<a>'', ''<b>'', ''<c>''] - 1"
    by simp_all
  show ?thesis
    using odd3 big last self_pair_side [OF odd3 big last, of bracketHash "[]"]
    by (simp add: bracketHash_def)
qed

text \<open>
  C9 (duplicate leaves). The generator builds its proof from the lowest index at which
  the target's digest stands, whatever other positions hold the same digest.
\<close>

theorem first_match_tie_break:
  assumes "i < length hs" and "hs ! i = H e" and "\<forall>j<i. hs ! j \<noteq> H e"
  shows "indexOf hs (H e) = int i
         \<and> generateMerkleProof H e hs = Some (proofLoop H i hs [])"
proof -
  have "indexOf hs (H e) = int i"
    using indexOfFrom_first [OF assms, of 0] by (simp add: indexOf_def)
  then show ?thesis
    by (simp add: generateMerkleProof_def)
qed

theorem first_match_tie_break_witness:
  "(1::nat) < length [''<b>'', ''<a>'', ''<a>'']
   \<and> [''<b>'', ''<a>'', ''<a>''] ! 1 = bracketHash ''a''
   \<and> [''<b>'', ''<a>'', ''<a>''] ! 2 = bracketHash ''a''
   \<and> [''<b>'', ''<a>'', ''<a>''] ! 0 \<noteq> bracketHash ''a''
   \<and> indexOf [''<b>'', ''<a>'', ''<a>''] (bracketHash ''a'') = 1
   \<and> generateMerkleProof bracketHash ''a'' [''<b>'', ''<a>'', ''<a>'']
       = Some (proofLoop bracketHash 1 [''<b>'', ''<a>'', ''<a>''] [])"
  using first_match_tie_break [of 1 "[''<b>'', ''<a>'', ''<a>'']" bracketHash "''a''"]
  by (simp add: bracketHash_def)

text \<open>
  C10 (returned tree). For a non-empty list the builder returns, and the \<open>tree\<close> field
  of the result is the one-entry list holding the root; for more than one leaf it is not
  the leaf level.
\<close>

theorem tree_holds_root_only:
  assumes "xs \<noteq> []"
  shows "\<exists>t. buildMerkleTree H xs = Some t \<and> tree t = [root t]
             \<and> (1 < length xs \<longrightarrow> tree t \<noteq> xs)"
proof -
  obtain r where r: "buildMerkleTree H xs = Some \<lparr>tree = [r], root = r\<rparr>"
    using buildMerkleTree_total [OF assms, of H] by auto
  show ?thesis
    by (rule exI [of _ "\<lparr>tree = [r], root = r\<rparr>"]) (auto simp: r)
qed

theorem tree_holds_root_only_witness:
  "[''<a>'', ''<b>'', ''<c>''] \<noteq> []
   \<and> (\<exists>t. buildMerkleTree bracketHash [''<a>'', ''<b>'', ''<c>''] = Some t \<and> tree t = [root t]
          \<and> tree t \<noteq> [''<a>'', ''<b>'', ''<c>''])"
  using tree_holds_root_only [of "[''<a>'', ''<b>'', ''<c>'']" bracketHash]
  by simp

end
